theory Spec2Isabelle
  imports Main
begin

section \<open>Values of the host language\<close>

text \<open>
  An item of a watched collection is a JavaScript object: a finite map from property
  names to values. An array object lives in a heap and is named by its address, so that
  two references to the same array see each other's in-place updates.
\<close>

type_synonym 'v obj = "string \<rightharpoonup> 'v"

type_synonym 'v heap = "'v obj list list"

datatype 'a jsval = Undefined | Null | Val 'a

datatype failure =
    ErrorEvent string
  | ErrorMessage string
  | SyntaxError
  | TypeError
  | TimeoutError

datatype 'a notification = Next 'a | Error failure

text \<open>What a callback hands back to its caller: nothing, or a function object that has not
  been called; the observer calls in the body of that function are carried along.\<close>

datatype returned = ReturnsUndefined | ReturnsFunction "string notification list"

section \<open>watch.ts: the event-source adapter\<close>

datatype ReadyState = CONNECTING | OPEN | CLOSED | DONE

fun ReadyState_value :: "ReadyState \<Rightarrow> nat" where
  "ReadyState_value CONNECTING = 0"
| "ReadyState_value OPEN = 1"
| "ReadyState_value CLOSED = 2"
| "ReadyState_value DONE = 4"

text \<open>
  The three callbacks installed by \<open>fromEventSource\<close>. Each yields the observer calls made
  while the callback runs, and the handlers also their return value.
  \<open>onmessage\<close> is \<^verbatim>\<open>(msg) => observer.next(msg.data)\<close>;
  \<open>onerror\<close> is \<^verbatim>\<open>(e) => () => { observer.error(e); }\<close>: the body of the handler is
  the inner arrow function itself, so running the handler builds that function and returns it;
  \<open>interval\<close> is the body of the 500 ms \<open>setInterval\<close>.
\<close>

definition onmessage :: "string \<Rightarrow> string notification list \<times> returned" where
  "onmessage data = ([Next data], ReturnsUndefined)"

definition onerror :: "string \<Rightarrow> string notification list \<times> returned" where
  "onerror e = ([], ReturnsFunction [Error (ErrorEvent e)])"

definition interval :: "bool \<Rightarrow> nat \<Rightarrow> string notification list" where
  "interval eventSource readyState =
     (if eventSource \<and> readyState = ReadyState_value CLOSED
      then [Error (ErrorMessage ''connection got closed unexpectedly'')]
      else [])"

text \<open>The transport calls a handler and drops what it returns; the observer sees the calls
  made during the run of the handler.\<close>

definition dispatch :: "string notification list \<times> returned \<Rightarrow> string notification list" where
  "dispatch r = fst r"

section \<open>watch.ts: the reducer of the list watch\<close>

record WatchEvent =
  type :: "string option"

text \<open>\<open>Array.prototype.findIndex\<close>: the first index whose element satisfies the predicate,
  or \<open>-1\<close>.\<close>

fun findIndex :: "('a \<Rightarrow> bool) \<Rightarrow> 'a list \<Rightarrow> int" where
  "findIndex p [] = - 1"
| "findIndex p (x # xs) =
     (if p x then 0 else (let r = findIndex p xs in if r = - 1 then - 1 else r + 1))"

text \<open>\<open>items.splice(index, 1)\<close> for an index in range: the array without that element.\<close>

definition splice :: "'a list \<Rightarrow> int \<Rightarrow> 'a list" where
  "splice xs index = take (nat index) xs @ drop (nat index + 1) xs"

text \<open>Object spread \<^verbatim>\<open>{...a, ...b}\<close>: the properties of \<open>a\<close>, then every property of \<open>b\<close>
  assigned over them.\<close>

definition spread :: "'v obj \<Rightarrow> 'v obj \<Rightarrow> 'v obj" where
  "spread a b = a ++ b"

text \<open>The callback given to \<open>scan\<close> in \<open>useWatchList\<close>, on the contents of the array.\<close>

definition reducer ::
  "('v obj \<Rightarrow> 'e WatchEvent_scheme \<Rightarrow> bool) \<Rightarrow> ('e WatchEvent_scheme \<Rightarrow> 'v obj) \<Rightarrow>
   'v obj list \<Rightarrow> 'e WatchEvent_scheme \<Rightarrow> 'v obj list" where
  "reducer findItem getItem items change =
     (let index = findIndex (\<lambda>i. findItem i change) items in
      if type change = Some ''Deleted'' then
        (if index > - 1 then splice items index else items)
      else if type change = Some ''Updated'' then
        (if index > - 1
         then items[nat index := spread (items ! nat index) (getItem change)]
         else items)
      else
        (if index > - 1
         then items[nat index := getItem change]
         else getItem change # items))"

text \<open>The reducer folded over a sequence of changes, and the entries of a collection that
  the identity predicate accepts for a change.\<close>

definition reduce_all ::
  "('v obj \<Rightarrow> 'e WatchEvent_scheme \<Rightarrow> bool) \<Rightarrow> ('e WatchEvent_scheme \<Rightarrow> 'v obj) \<Rightarrow>
   'e WatchEvent_scheme list \<Rightarrow> 'v obj list \<Rightarrow> 'v obj list" where
  "reduce_all findItem getItem cs xs = fold (\<lambda>c a. reducer findItem getItem a c) cs xs"

definition matching :: "('a \<Rightarrow> 'c \<Rightarrow> bool) \<Rightarrow> 'c \<Rightarrow> 'a list \<Rightarrow> 'a list" where
  "matching findItem c xs = filter (\<lambda>i. findItem i c) xs"

section \<open>watch.ts: the visibility gate\<close>

text \<open>
  \<open>subscription\<close>: the variable of \<open>handlePageVisibility\<close> is non-null;
  \<open>listener\<close>: the gate itself is subscribed, so its \<open>visibilitychange\<close> listener is installed.
  The feed behind the gate is given by what subscribing to it and unsubscribing from it do
  to the state.
\<close>

record gate =
  subscription :: bool
  listener :: bool

definition ensureUnsubscribed :: "('a gate_scheme \<Rightarrow> 'a gate_scheme) \<Rightarrow> 'a gate_scheme \<Rightarrow> 'a gate_scheme" where
  "ensureUnsubscribed unsub s = (if subscription s then (unsub s)\<lparr>subscription := False\<rparr> else s)"

definition start ::
  "('a gate_scheme \<Rightarrow> 'a gate_scheme) \<Rightarrow> ('a gate_scheme \<Rightarrow> 'a gate_scheme) \<Rightarrow> 'a gate_scheme \<Rightarrow> 'a gate_scheme" where
  "start sub unsub s = (sub (ensureUnsubscribed unsub s))\<lparr>subscription := True\<rparr>"

text \<open>Subscribing to the gate, with the value of \<open>document.hidden\<close> at that moment.\<close>

definition handlePageVisibility ::
  "('a gate_scheme \<Rightarrow> 'a gate_scheme) \<Rightarrow> ('a gate_scheme \<Rightarrow> 'a gate_scheme) \<Rightarrow> bool \<Rightarrow> 'a gate_scheme \<Rightarrow> 'a gate_scheme" where
  "handlePageVisibility sub unsub hidden s =
     (if \<not> hidden then start sub unsub s else s)\<lparr>listener := True\<rparr>"

text \<open>The debounced \<open>visibilitychange\<close> callback, with the value of \<open>document.hidden\<close>.\<close>

definition visibilitychange ::
  "('a gate_scheme \<Rightarrow> 'a gate_scheme) \<Rightarrow> ('a gate_scheme \<Rightarrow> 'a gate_scheme) \<Rightarrow> bool \<Rightarrow> 'a gate_scheme \<Rightarrow> 'a gate_scheme" where
  "visibilitychange sub unsub hidden s =
     (if hidden \<and> subscription s then ensureUnsubscribed unsub s
      else if \<not> hidden \<and> \<not> subscription s then start sub unsub s
      else s)"

text \<open>The teardown returned by the gate.\<close>

definition teardown :: "('a gate_scheme \<Rightarrow> 'a gate_scheme) \<Rightarrow> 'a gate_scheme \<Rightarrow> 'a gate_scheme" where
  "teardown unsub s = ensureUnsubscribed unsub (s\<lparr>listener := False\<rparr>)"

section \<open>watch.ts: the source with repeat and retryWhen\<close>

text \<open>
  \<open>eventSource\<close>: an activation of the adapter is live (transport open, interval running);
  \<open>retry\<close>: \<open>retryWhen\<close> holds an error in its 500 ms delay;
  \<open>connections\<close>: the URL of every \<open>EventSource\<close> constructed so far.
\<close>

record stream = gate +
  eventSource :: bool
  retry :: bool
  connections :: "string list"

definition subscribe_source :: "string \<Rightarrow> 'a stream_scheme \<Rightarrow> 'a stream_scheme" where
  "subscribe_source url s = s\<lparr>eventSource := True, connections := connections s @ [url]\<rparr>"

definition unsubscribe_source :: "'a stream_scheme \<Rightarrow> 'a stream_scheme" where
  "unsubscribe_source s = s\<lparr>eventSource := False, retry := False\<rparr>"

text \<open>An error notification reaching \<open>retryWhen\<close>: the activation is unsubscribed and the
  error waits in \<open>delay(500)\<close>; when the delay is over the source is subscribed again.\<close>

definition retryWhen :: "'a stream_scheme \<Rightarrow> 'a stream_scheme" where
  "retryWhen s = s\<lparr>eventSource := False, retry := True\<rparr>"

definition retry_delay :: "string \<Rightarrow> 'a stream_scheme \<Rightarrow> 'a stream_scheme" where
  "retry_delay url s = (if retry s then subscribe_source url (s\<lparr>retry := False\<rparr>) else s)"

text \<open>What can happen to a mounted hook: a callback of the transport, or a timer. An event
  for which a hook has no callback or timer at that moment leaves its state as it is.\<close>

datatype event =
    Message string
  | ErrorCallback string
  | Interval nat
  | RetryDelay
  | BufferTime
  | VisibilityChange bool
  | Loader
  | Timeout

section \<open>watch.ts: useWatchList\<close>

text \<open>
  \<open>heap\<close>: the array objects, an address being an index into it;
  \<open>seed\<close>: the address of the array \<^verbatim>\<open>init || []\<close> handed to \<open>scan\<close>;
  \<open>acc\<close>: the accumulator of the current \<open>scan\<close> subscriber;
  \<open>buffer\<close>: the open buffer of \<open>bufferTime\<close> (array references);
  \<open>items\<close>, \<open>error\<close>, \<open>loading\<close>: the three React states;
  \<open>rendered\<close>: every array given to \<open>setItems\<close>, in order.
\<close>

record 'v watch_list = stream +
  heap :: "'v heap"
  seed :: nat
  acc :: nat
  buffer :: "nat list"
  items :: "'v obj list"
  error :: bool
  loading :: bool
  rendered :: "'v obj list list"

text \<open>\<^verbatim>\<open>(l) => setItems([...l])\<close>: a copy of the array as it is at the time of the call.\<close>

definition setItems :: "nat \<Rightarrow> 'v watch_list \<Rightarrow> 'v watch_list" where
  "setItems l s = s\<lparr>items := heap s ! l, rendered := rendered s @ [heap s ! l]\<rparr>"

definition subscribe_list :: "string \<Rightarrow> 'v watch_list \<Rightarrow> 'v watch_list" where
  "subscribe_list url s = subscribe_source url (s\<lparr>acc := seed s, buffer := []\<rparr>)"

definition unsubscribe_list :: "'v watch_list \<Rightarrow> 'v watch_list" where
  "unsubscribe_list s = unsubscribe_source (s\<lparr>buffer := []\<rparr>)"

text \<open>One value arriving at \<open>scan\<close>. For \<open>undefined\<close> or \<open>null\<close> the callback throws, at
  the latest when it reads \<open>change.type\<close>; otherwise the array under the accumulator is
  updated in place and the same reference is returned.\<close>

definition scan_list ::
  "('v obj \<Rightarrow> 'e WatchEvent_scheme \<Rightarrow> bool) \<Rightarrow> ('e WatchEvent_scheme \<Rightarrow> 'v obj) \<Rightarrow>
   'e WatchEvent_scheme jsval \<Rightarrow> 'v watch_list \<Rightarrow> failure + 'v watch_list \<times> nat" where
  "scan_list findItem getItem change s =
     (case change of
        Val c \<Rightarrow>
          Inr (s\<lparr>heap := (heap s)[acc s := reducer findItem getItem (heap s ! acc s) c]\<rparr>, acc s)
      | _ \<Rightarrow> Inl TypeError)"

text \<open>An error below \<open>retryWhen\<close>: \<open>bufferTime\<close> drops its buffer, the gate passes the error
  on, \<^verbatim>\<open>() => setError(true)\<close> runs and the subscriber unsubscribes.\<close>

definition terminal_list :: "'v watch_list \<Rightarrow> 'v watch_list" where
  "terminal_list s = teardown unsubscribe_list (s\<lparr>error := True\<rparr>)"

text \<open>A notification of the adapter going down the pipe: \<open>map\<close> with \<open>parse\<close> for
  \<^verbatim>\<open>JSON.parse(res).result\<close> (\<open>Inl\<close> when it throws), \<open>repeat\<close>, \<open>retryWhen\<close>, \<open>scan\<close>,
  \<open>bufferTime\<close>.\<close>

fun notify_list ::
  "('v obj \<Rightarrow> 'e WatchEvent_scheme \<Rightarrow> bool) \<Rightarrow> ('e WatchEvent_scheme \<Rightarrow> 'v obj) \<Rightarrow>
   (string \<Rightarrow> failure + 'e WatchEvent_scheme jsval) \<Rightarrow>
   string notification \<Rightarrow> 'v watch_list \<Rightarrow> 'v watch_list" where
  "notify_list findItem getItem parse (Error e) s = retryWhen s"
| "notify_list findItem getItem parse (Next res) s =
     (case parse res of
        Inl e \<Rightarrow> retryWhen s
      | Inr change \<Rightarrow>
          (case scan_list findItem getItem change s of
             Inl e \<Rightarrow> terminal_list s
           | Inr (s', l) \<Rightarrow> s'\<lparr>buffer := buffer s' @ [l]\<rparr>))"

text \<open>The end of a buffer window: the buffer is emitted, \<open>mergeMap\<close> flattens it and every
  element goes to \<open>setItems\<close>.\<close>

definition flush_list :: "'v watch_list \<Rightarrow> 'v watch_list" where
  "flush_list s = fold setItems (buffer s) (s\<lparr>buffer := []\<rparr>)"

fun step_list ::
  "string \<Rightarrow> ('v obj \<Rightarrow> 'e WatchEvent_scheme \<Rightarrow> bool) \<Rightarrow> ('e WatchEvent_scheme \<Rightarrow> 'v obj) \<Rightarrow>
   (string \<Rightarrow> failure + 'e WatchEvent_scheme jsval) \<Rightarrow>
   event \<Rightarrow> 'v watch_list \<Rightarrow> 'v watch_list" where
  "step_list url findItem getItem parse (Message d) s =
     (if eventSource s then fold (notify_list findItem getItem parse) (dispatch (onmessage d)) s else s)"
| "step_list url findItem getItem parse (ErrorCallback e) s =
     (if eventSource s then fold (notify_list findItem getItem parse) (dispatch (onerror e)) s else s)"
| "step_list url findItem getItem parse (Interval readyState) s =
     (if eventSource s then fold (notify_list findItem getItem parse) (interval True readyState) s else s)"
| "step_list url findItem getItem parse RetryDelay s = retry_delay url s"
| "step_list url findItem getItem parse BufferTime s =
     (if subscription s then flush_list s else s)"
| "step_list url findItem getItem parse (VisibilityChange hidden) s =
     (if listener s then visibilitychange (subscribe_list url) unsubscribe_list hidden s else s)"
| "step_list url findItem getItem parse Loader s = s\<lparr>loading := False\<rparr>"
| "step_list url findItem getItem parse Timeout s = s"

text \<open>The effect of \<open>useWatchList\<close>, run on a heap with the caller's \<open>init\<close> (the address of
  an array, or \<open>None\<close> for \<open>undefined\<close>) and the value of \<open>document.hidden\<close>.\<close>

definition useWatchList :: "string \<Rightarrow> 'v heap \<Rightarrow> nat option \<Rightarrow> bool \<Rightarrow> 'v watch_list" where
  "useWatchList url h init hidden =
     (let (h', a) = (case init of Some a \<Rightarrow> (h, a) | None \<Rightarrow> (h @ [[]], length h)) in
      handlePageVisibility (subscribe_list url) unsubscribe_list hidden
        \<lparr>subscription = False, listener = False,
         eventSource = False, retry = False, connections = [],
         heap = h', seed = a, acc = a, buffer = [],
         items = [], error = False, loading = True, rendered = []\<rparr>)"

text \<open>The state of a list watch mounted on heap \<open>h\<close> after a sequence of events.\<close>

definition run_list ::
  "string \<Rightarrow> ('v obj \<Rightarrow> 'e WatchEvent_scheme \<Rightarrow> bool) \<Rightarrow> ('e WatchEvent_scheme \<Rightarrow> 'v obj) \<Rightarrow>
   (string \<Rightarrow> failure + 'e WatchEvent_scheme jsval) \<Rightarrow>
   'v heap \<Rightarrow> nat option \<Rightarrow> bool \<Rightarrow> event list \<Rightarrow> 'v watch_list" where
  "run_list url findItem getItem parse h init hidden evs =
     fold (step_list url findItem getItem parse) evs (useWatchList url h init hidden)"

section \<open>watch.ts: useWatch\<close>

text \<open>
  \<open>latest\<close>: the accumulator of \<open>scan\<close>; \<open>batch\<close>: the open buffer of \<open>bufferTime\<close>;
  \<open>item\<close>: the React state.
\<close>

record 'v watch = stream +
  latest :: "'v obj jsval"
  batch :: "'v obj jsval list"
  item :: "'v obj jsval"

definition setItem :: "'v obj jsval \<Rightarrow> 'v watch \<Rightarrow> 'v watch" where
  "setItem i s = s\<lparr>item := i\<rparr>"

definition subscribe_watch :: "string \<Rightarrow> 'v watch \<Rightarrow> 'v watch" where
  "subscribe_watch url s = subscribe_source url (s\<lparr>latest := Val Map.empty, batch := []\<rparr>)"

definition unsubscribe_watch :: "'v watch \<Rightarrow> 'v watch" where
  "unsubscribe_watch s = unsubscribe_source (s\<lparr>batch := []\<rparr>)"

fun notify_watch ::
  "(string \<Rightarrow> failure + 'v obj jsval) \<Rightarrow> string notification \<Rightarrow> 'v watch \<Rightarrow> 'v watch" where
  "notify_watch parse (Error e) s = retryWhen s"
| "notify_watch parse (Next res) s =
     (case parse res of
        Inl e \<Rightarrow> retryWhen s
      | Inr update \<Rightarrow> s\<lparr>latest := update, batch := batch s @ [update]\<rparr>)"

definition flush_watch :: "'v watch \<Rightarrow> 'v watch" where
  "flush_watch s = fold setItem (batch s) (s\<lparr>batch := []\<rparr>)"

text \<open>\<^verbatim>\<open>timeoutAfter > 0\<close>, false for \<open>undefined\<close>.\<close>

definition positive :: "int option \<Rightarrow> bool" where
  "positive timeoutAfter = (case timeoutAfter of Some t \<Rightarrow> t > 0 | None \<Rightarrow> False)"

fun step_watch ::
  "string \<Rightarrow> int option \<Rightarrow> (string \<Rightarrow> failure + 'v obj jsval) \<Rightarrow> event \<Rightarrow> 'v watch \<Rightarrow> 'v watch" where
  "step_watch url timeoutAfter parse (Message d) s =
     (if eventSource s then fold (notify_watch parse) (dispatch (onmessage d)) s else s)"
| "step_watch url timeoutAfter parse (ErrorCallback e) s =
     (if eventSource s then fold (notify_watch parse) (dispatch (onerror e)) s else s)"
| "step_watch url timeoutAfter parse (Interval readyState) s =
     (if eventSource s then fold (notify_watch parse) (interval True readyState) s else s)"
| "step_watch url timeoutAfter parse RetryDelay s = retry_delay url s"
| "step_watch url timeoutAfter parse BufferTime s =
     (if subscription s then flush_watch s else s)"
| "step_watch url timeoutAfter parse (VisibilityChange hidden) s =
     (if listener s then visibilitychange (subscribe_watch url) unsubscribe_watch hidden s else s)"
| "step_watch url timeoutAfter parse Loader s = s"
| "step_watch url timeoutAfter parse Timeout s =
     (if positive timeoutAfter \<and> listener s then teardown unsubscribe_watch s else s)"

text \<open>
  The hook keeps \<open>item\<close> in React state, which outlives a single run of the effect.
  \<open>initial_watch\<close> is the hook before its first effect (\<^verbatim>\<open>React.useState({} as T)\<close>, nothing
  subscribed); \<open>useWatch\<close> is one run of the effect on the state the hook is in;
  \<open>cleanup_watch\<close> is the function the effect returns (\<^verbatim>\<open>sub.unsubscribe()\<close>), which React
  calls before the effect runs again for changed \<open>url\<close>, \<open>subscribe\<close> or \<open>timeoutAfter\<close>.
\<close>

definition initial_watch :: "'v watch" where
  "initial_watch =
     \<lparr>subscription = False, listener = False,
      eventSource = False, retry = False, connections = [],
      latest = Val Map.empty, batch = [], item = Val Map.empty\<rparr>"

definition cleanup_watch :: "'v watch \<Rightarrow> 'v watch" where
  "cleanup_watch s = teardown unsubscribe_watch s"

definition useWatch :: "string \<Rightarrow> bool \<Rightarrow> bool \<Rightarrow> 'v watch \<Rightarrow> 'v watch" where
  "useWatch url subscribe hidden s =
     (if \<not> subscribe then s
      else handlePageVisibility (subscribe_watch url) unsubscribe_watch hidden s)"

text \<open>
  The life of the hook: runs of the effect (with the arguments of that render and the value
  of \<open>document.hidden\<close>), each after the cleanup of the run before, and events in between,
  which meet the callbacks and timers of the latest run.
\<close>

datatype action = Effect string bool "int option" bool | Event event

fun act_watch ::
  "(string \<Rightarrow> failure + 'v obj jsval) \<Rightarrow> action \<Rightarrow>
   string \<times> int option \<times> 'v watch \<Rightarrow> string \<times> int option \<times> 'v watch" where
  "act_watch parse (Effect url subscribe timeoutAfter hidden) (u, t, s) =
     (url, timeoutAfter, useWatch url subscribe hidden (cleanup_watch s))"
| "act_watch parse (Event e) (u, t, s) = (u, t, step_watch u t parse e s)"

definition watch_after :: "(string \<Rightarrow> failure + 'v obj jsval) \<Rightarrow> action list \<Rightarrow> 'v watch" where
  "watch_after parse acts = snd (snd (fold (act_watch parse) acts ([], None, initial_watch)))"

section \<open>Reachable states of the list watch\<close>

text \<open>What every state of a mounted list watch satisfies: the accumulator is the seed array,
  the buffer holds references to it only, nothing runs behind a closed gate, and the error
  flag is up exactly when the gate has been torn down.\<close>

definition wired :: "'v watch_list \<Rightarrow> bool" where
  "wired s \<longleftrightarrow>
     acc s = seed s \<and> set (buffer s) \<subseteq> {seed s} \<and>
     (eventSource s \<or> retry s \<or> buffer s \<noteq> [] \<longrightarrow> subscription s) \<and>
     (subscription s \<longrightarrow> listener s) \<and>
     (error s \<longleftrightarrow> \<not> listener s)"

text \<open>What every state of the single-item hook satisfies: a connection is live or pending
  only behind an open gate.\<close>

definition tidy :: "'v watch \<Rightarrow> bool" where
  "tidy s \<longleftrightarrow> (eventSource s \<or> retry s \<longrightarrow> subscription s)"

section \<open>A caller for the examples\<close>

text \<open>
  A change carries a key and an item; \<open>same_id\<close> compares the \<open>id\<close> property of an entry with
  the key of the change, \<open>payload\<close> extracts the item as it was sent, \<open>stamped\<close> extracts
  it with the key of the change written into its \<open>id\<close>. \<open>parse_sample\<close> stands for
  \<^verbatim>\<open>JSON.parse(res).result\<close> on five payloads: three changes, a document without
  \<open>result\<close>, and text that is not JSON; \<open>parse_item\<close> stands for it on the payloads of a
  single-item watch: one item, and text that is not JSON.
\<close>

type_synonym change = "(string \<times> string obj) WatchEvent_scheme"

definition change :: "string option \<Rightarrow> string \<Rightarrow> string obj \<Rightarrow> change" where
  "change t k p = \<lparr>type = t, \<dots> = (k, p)\<rparr>"

definition same_id :: "string obj \<Rightarrow> change \<Rightarrow> bool" where
  "same_id i c = (i ''id'' = Some (fst (WatchEvent.more c)))"

definition payload :: "change \<Rightarrow> string obj" where
  "payload c = snd (WatchEvent.more c)"

definition stamped :: "change \<Rightarrow> string obj" where
  "stamped c = (payload c)(''id'' \<mapsto> fst (WatchEvent.more c))"

definition parse_sample :: "string \<Rightarrow> failure + change jsval" where
  "parse_sample res =
     (if res = ''added 1'' then Inr (Val (change (Some ''Added'') ''1'' [''id'' \<mapsto> ''1'']))
      else if res = ''added 2'' then Inr (Val (change (Some ''Added'') ''2'' [''id'' \<mapsto> ''2'']))
      else if res = ''deleted 1'' then Inr (Val (change (Some ''Deleted'') ''1'' Map.empty))
      else if res = ''{}'' then Inr Undefined
      else Inl SyntaxError)"

definition parse_item :: "string \<Rightarrow> failure + string obj jsval" where
  "parse_item res =
     (if res = ''item 1'' then Inr (Val [''id'' \<mapsto> ''1'']) else Inl SyntaxError)"

lemmas watch_defs =
  useWatchList_def handlePageVisibility_def start_def ensureUnsubscribed_def
  subscribe_list_def subscribe_source_def unsubscribe_list_def unsubscribe_source_def
  retryWhen_def retry_delay_def scan_list_def terminal_list_def teardown_def flush_list_def
  setItems_def visibilitychange_def dispatch_def onmessage_def onerror_def interval_def
  reducer_def splice_def spread_def change_def same_id_def payload_def parse_sample_def

section \<open>findIndex\<close>

lemma findIndex_ge: "- 1 \<le> findIndex p xs"
  by (induction xs) (auto simp: Let_def)

lemma findIndex_none: "findIndex p xs = - 1 \<longleftrightarrow> (\<forall>x \<in> set xs. \<not> p x)"
proof (induction xs)
  case Nil
  show ?case by simp
next
  case (Cons x xs)
  have "- 1 \<le> findIndex p xs" by (rule findIndex_ge)
  with Cons show ?case by (auto simp: Let_def)
qed

lemma findIndex_found: "findIndex p xs > - 1 \<longleftrightarrow> (\<exists>x \<in> set xs. p x)"
  using findIndex_ge [of p xs] findIndex_none [of p xs] by auto

lemma findIndex_first:
  "findIndex p xs > - 1 \<Longrightarrow>
     nat (findIndex p xs) < length xs \<and> p (xs ! nat (findIndex p xs)) \<and>
     (\<forall>j < nat (findIndex p xs). \<not> p (xs ! j))"
proof (induction xs)
  case Nil
  then show ?case by simp
next
  case (Cons x xs)
  show ?case
  proof (cases "p x")
    case True
    then show ?thesis by simp
  next
    case False
    with Cons.prems have r: "findIndex p xs > - 1"
      by (auto simp: Let_def split: if_splits)
    then have n: "nat (findIndex p xs + 1) = Suc (nat (findIndex p xs))" by simp
    from r have ne: "findIndex p xs \<noteq> - 1" by simp
    from Cons.IH [OF r] False show ?thesis
      by (auto simp: Let_def ne n less_Suc_eq_0_disj)
  qed
qed

section \<open>The reducer, branch by branch\<close>

text \<open>
  C4. A \<open>Deleted\<close> change that matches no entry leaves the collection as it is, so applying
  it a second time gives what applying it once gives.
\<close>

theorem deleted_absent_idempotent:
  assumes "type c = Some ''Deleted''"
    and "\<forall>i \<in> set xs. \<not> findItem i c"
  shows "reducer findItem getItem xs c = xs \<and>
         reducer findItem getItem (reducer findItem getItem xs c) c =
           reducer findItem getItem xs c"
proof -
  from assms(2) have "findIndex (\<lambda>i. findItem i c) xs = - 1"
    by (simp add: findIndex_none)
  with assms(1) have "reducer findItem getItem xs c = xs"
    by (simp add: reducer_def)
  then show ?thesis by simp
qed

theorem deleted_absent_idempotent_witness:
  "type (change (Some ''Deleted'') ''2'' Map.empty) = Some ''Deleted'' \<and>
   \<not> same_id [''id'' \<mapsto> ''1'', ''name'' \<mapsto> ''a''] (change (Some ''Deleted'') ''2'' Map.empty) \<and>
   reducer same_id payload [[''id'' \<mapsto> ''1'', ''name'' \<mapsto> ''a'']]
     (change (Some ''Deleted'') ''2'' Map.empty)
   = [[''id'' \<mapsto> ''1'', ''name'' \<mapsto> ''a'']]"
  using deleted_absent_idempotent
    [of "change (Some ''Deleted'') ''2'' Map.empty"
        "[[''id'' \<mapsto> ''1'', ''name'' \<mapsto> ''a'']]" same_id payload]
  by (simp add: change_def same_id_def)

text \<open>
  C5. An \<open>Updated\<close> change: when some entry matches, the first matching entry is replaced,
  at its position, by the spread of the entry and the extracted item, in which a property of
  the extracted item wins over the entry's; when no entry matches, the collection is left
  as it is.
\<close>

theorem updated_merges_or_drops:
  assumes "type c = Some ''Updated''"
  shows "((\<exists>i \<in> set xs. findItem i c) \<longrightarrow>
            (\<exists>n < length xs. findItem (xs ! n) c \<and> (\<forall>j < n. \<not> findItem (xs ! j) c) \<and>
               reducer findItem getItem xs c = xs[n := spread (xs ! n) (getItem c)] \<and>
               (\<forall>k. spread (xs ! n) (getItem c) k =
                      (case getItem c k of Some v \<Rightarrow> Some v | None \<Rightarrow> (xs ! n) k)))) \<and>
         ((\<forall>i \<in> set xs. \<not> findItem i c) \<longrightarrow> reducer findItem getItem xs c = xs)"
proof (intro conjI impI)
  assume "\<exists>i \<in> set xs. findItem i c"
  then have found: "findIndex (\<lambda>i. findItem i c) xs > - 1"
    by (simp add: findIndex_found)
  let ?n = "nat (findIndex (\<lambda>i. findItem i c) xs)"
  from findIndex_first [OF found]
  have "?n < length xs" and "findItem (xs ! ?n) c" and "\<forall>j < ?n. \<not> findItem (xs ! j) c"
    by simp_all
  moreover from assms found
  have "reducer findItem getItem xs c = xs[?n := spread (xs ! ?n) (getItem c)]"
    by (simp add: reducer_def Let_def)
  moreover have "\<forall>k. spread (xs ! ?n) (getItem c) k =
      (case getItem c k of Some v \<Rightarrow> Some v | None \<Rightarrow> (xs ! ?n) k)"
    by (simp add: spread_def map_add_def)
  ultimately show "\<exists>n < length xs. findItem (xs ! n) c \<and> (\<forall>j < n. \<not> findItem (xs ! j) c) \<and>
               reducer findItem getItem xs c = xs[n := spread (xs ! n) (getItem c)] \<and>
               (\<forall>k. spread (xs ! n) (getItem c) k =
                      (case getItem c k of Some v \<Rightarrow> Some v | None \<Rightarrow> (xs ! n) k))"
    by blast
next
  assume "\<forall>i \<in> set xs. \<not> findItem i c"
  then have "findIndex (\<lambda>i. findItem i c) xs = - 1"
    by (simp add: findIndex_none)
  with assms show "reducer findItem getItem xs c = xs"
    by (simp add: reducer_def)
qed

theorem updated_merges_or_drops_witness:
  "type (change (Some ''Updated'') ''1'' [''id'' \<mapsto> ''1'', ''name'' \<mapsto> ''b'']) = Some ''Updated'' \<and>
   reducer same_id payload [[''id'' \<mapsto> ''1'', ''name'' \<mapsto> ''a'']]
     (change (Some ''Updated'') ''1'' [''id'' \<mapsto> ''1'', ''name'' \<mapsto> ''b''])
   = [[''id'' \<mapsto> ''1'', ''name'' \<mapsto> ''b'']] \<and>
   reducer same_id payload [[''id'' \<mapsto> ''2'', ''name'' \<mapsto> ''a'']]
     (change (Some ''Updated'') ''1'' [''id'' \<mapsto> ''1'', ''name'' \<mapsto> ''b''])
   = [[''id'' \<mapsto> ''2'', ''name'' \<mapsto> ''a'']]"
  using updated_merges_or_drops
    [of "change (Some ''Updated'') ''1'' [''id'' \<mapsto> ''1'', ''name'' \<mapsto> ''b'']"
        "[[''id'' \<mapsto> ''1'', ''name'' \<mapsto> ''a'']]" same_id payload]
    updated_merges_or_drops
    [of "change (Some ''Updated'') ''1'' [''id'' \<mapsto> ''1'', ''name'' \<mapsto> ''b'']"
        "[[''id'' \<mapsto> ''2'', ''name'' \<mapsto> ''a'']]" same_id payload]
  by (simp add: reducer_def spread_def change_def same_id_def payload_def)

text \<open>
  C6. A change whose type is neither \<open>Deleted\<close> nor \<open>Updated\<close>: when some entry matches, the
  first matching entry is replaced by the extracted item at the same position and the length
  is unchanged; when no entry matches, the extracted item is put in front of the collection.
\<close>

theorem other_replaces_or_prepends:
  assumes "type c \<noteq> Some ''Deleted''" and "type c \<noteq> Some ''Updated''"
  shows "((\<exists>i \<in> set xs. findItem i c) \<longrightarrow>
            (\<exists>n < length xs. findItem (xs ! n) c \<and> (\<forall>j < n. \<not> findItem (xs ! j) c) \<and>
               reducer findItem getItem xs c = xs[n := getItem c] \<and>
               length (reducer findItem getItem xs c) = length xs \<and>
               reducer findItem getItem xs c ! n = getItem c)) \<and>
         ((\<forall>i \<in> set xs. \<not> findItem i c) \<longrightarrow>
            reducer findItem getItem xs c = getItem c # xs)"
proof (intro conjI impI)
  assume "\<exists>i \<in> set xs. findItem i c"
  then have found: "findIndex (\<lambda>i. findItem i c) xs > - 1"
    by (simp add: findIndex_found)
  let ?n = "nat (findIndex (\<lambda>i. findItem i c) xs)"
  from findIndex_first [OF found]
  have n: "?n < length xs" and "findItem (xs ! ?n) c" and "\<forall>j < ?n. \<not> findItem (xs ! j) c"
    by simp_all
  moreover from assms found
  have r: "reducer findItem getItem xs c = xs[?n := getItem c]"
    by (simp add: reducer_def Let_def)
  moreover from r n have "length (reducer findItem getItem xs c) = length xs"
    and "reducer findItem getItem xs c ! ?n = getItem c"
    by simp_all
  ultimately show "\<exists>n < length xs. findItem (xs ! n) c \<and> (\<forall>j < n. \<not> findItem (xs ! j) c) \<and>
               reducer findItem getItem xs c = xs[n := getItem c] \<and>
               length (reducer findItem getItem xs c) = length xs \<and>
               reducer findItem getItem xs c ! n = getItem c"
    by blast
next
  assume "\<forall>i \<in> set xs. \<not> findItem i c"
  then have "findIndex (\<lambda>i. findItem i c) xs = - 1"
    by (simp add: findIndex_none)
  with assms show "reducer findItem getItem xs c = getItem c # xs"
    by (simp add: reducer_def)
qed

theorem other_replaces_or_prepends_witness:
  "type (change (Some ''Added'') ''1'' [''id'' \<mapsto> ''1'']) \<noteq> Some ''Deleted'' \<and>
   type (change (Some ''Added'') ''1'' [''id'' \<mapsto> ''1'']) \<noteq> Some ''Updated'' \<and>
   type (change None ''1'' [''id'' \<mapsto> ''1'']) \<noteq> Some ''Deleted'' \<and>
   type (change None ''1'' [''id'' \<mapsto> ''1'']) \<noteq> Some ''Updated'' \<and>
   reducer same_id payload [[''id'' \<mapsto> ''2''], [''id'' \<mapsto> ''1'', ''name'' \<mapsto> ''a'']]
     (change (Some ''Added'') ''1'' [''id'' \<mapsto> ''1''])
   = [[''id'' \<mapsto> ''2''], [''id'' \<mapsto> ''1'']] \<and>
   reducer same_id payload [[''id'' \<mapsto> ''2'']] (change None ''1'' [''id'' \<mapsto> ''1''])
   = [[''id'' \<mapsto> ''1''], [''id'' \<mapsto> ''2'']]"
  using other_replaces_or_prepends
    [of "change (Some ''Added'') ''1'' [''id'' \<mapsto> ''1'']"
        "[[''id'' \<mapsto> ''2''], [''id'' \<mapsto> ''1'', ''name'' \<mapsto> ''a'']]" same_id payload]
    other_replaces_or_prepends
    [of "change None ''1'' [''id'' \<mapsto> ''1'']" "[[''id'' \<mapsto> ''2'']]" same_id payload]
  by (simp add: reducer_def change_def same_id_def payload_def)

section \<open>The states a list watch reaches\<close>

lemma wired_mount: "wired (useWatchList url h init hidden)"
  by (cases init)
     (simp_all add: wired_def useWatchList_def handlePageVisibility_def start_def
        ensureUnsubscribed_def subscribe_list_def subscribe_source_def)

lemma wired_notify: "wired s \<Longrightarrow> eventSource s \<Longrightarrow> wired (notify_list f g p n s)"
  by (cases n)
     (auto simp: wired_def retryWhen_def scan_list_def terminal_list_def teardown_def
        ensureUnsubscribed_def unsubscribe_list_def unsubscribe_source_def
        split: sum.splits jsval.splits)

lemma fold_setItems:
  "fold setItems ls s = s\<lparr>items := (if ls = [] then items s else heap s ! last ls),
                            rendered := rendered s @ map (\<lambda>l. heap s ! l) ls\<rparr>"
proof (induction ls arbitrary: s)
  case Nil
  show ?case by simp
next
  case (Cons l ls)
  have "fold setItems (l # ls) s = fold setItems ls (setItems l s)" by simp
  also have "\<dots> = (setItems l s)\<lparr>items := (if ls = [] then items (setItems l s) else heap (setItems l s) ! last ls),
                            rendered := rendered (setItems l s) @ map (\<lambda>l'. heap (setItems l s) ! l') ls\<rparr>"
    by (rule Cons.IH)
  also have "\<dots> = s\<lparr>items := (if l # ls = [] then items s else heap s ! last (l # ls)),
                            rendered := rendered s @ map (\<lambda>l'. heap s ! l') (l # ls)\<rparr>"
    by (simp add: setItems_def)
  finally show ?case .
qed

lemma wired_step: "wired s \<Longrightarrow> wired (step_list url f g p e s)"
proof (cases e)
  case (Message d)
  assume "wired s" then show ?thesis
    by (simp add: Message dispatch_def onmessage_def wired_notify del: notify_list.simps)
next
  case (ErrorCallback x)
  assume "wired s" then show ?thesis
    by (simp add: ErrorCallback dispatch_def onerror_def)
next
  case (Interval r)
  assume "wired s" then show ?thesis
    by (simp add: Interval interval_def wired_notify del: notify_list.simps)
next
  case RetryDelay
  assume "wired s" then show ?thesis
    by (auto simp: RetryDelay retry_delay_def subscribe_source_def wired_def)
next
  case BufferTime
  assume "wired s" then show ?thesis
    by (auto simp: BufferTime flush_list_def fold_setItems wired_def)
next
  case (VisibilityChange hd)
  assume "wired s" then show ?thesis
    by (auto simp: VisibilityChange visibilitychange_def start_def ensureUnsubscribed_def
        subscribe_list_def subscribe_source_def unsubscribe_list_def unsubscribe_source_def wired_def)
next
  case Loader
  assume "wired s" then show ?thesis by (simp add: Loader wired_def)
next
  case Timeout
  assume "wired s" then show ?thesis by (simp add: Timeout)
qed

lemma wired_fold: "wired s \<Longrightarrow> wired (fold (step_list url f g p) evs s)"
  by (induction evs arbitrary: s) (simp_all add: wired_step)

lemma wired_run: "wired (fold (step_list url f g p) evs (useWatchList url h init hidden))"
  by (rule wired_fold) (rule wired_mount)

lemma frame_notify:
  "seed (notify_list f g p n s) = seed s \<and> length (heap (notify_list f g p n s)) = length (heap s)"
  by (cases n)
     (auto simp: retryWhen_def scan_list_def terminal_list_def teardown_def
        ensureUnsubscribed_def unsubscribe_list_def unsubscribe_source_def
        split: sum.splits jsval.splits)

lemma frame_step:
  "seed (step_list url f g p e s) = seed s \<and> length (heap (step_list url f g p e s)) = length (heap s)"
  by (cases e)
     (auto simp: frame_notify dispatch_def onmessage_def onerror_def interval_def retry_delay_def
        subscribe_source_def flush_list_def fold_setItems visibilitychange_def start_def
        ensureUnsubscribed_def subscribe_list_def unsubscribe_list_def unsubscribe_source_def
        simp del: notify_list.simps)

lemma frame_fold:
  "seed (fold (step_list url f g p) evs s) = seed s \<and>
   length (heap (fold (step_list url f g p) evs s)) = length (heap s)"
  by (induction evs arbitrary: s) (simp_all add: frame_step)

lemma mount_some:
  "seed (useWatchList url h (Some a) hidden) = a \<and> heap (useWatchList url h (Some a) hidden) = h"
  by (simp add: useWatchList_def handlePageVisibility_def start_def ensureUnsubscribed_def
      subscribe_list_def subscribe_source_def)

section \<open>The error callback of the transport\<close>

text \<open>The interval, for comparison: when it reads a closed connection it calls
  \<open>observer.error\<close>, and \<open>retryWhen\<close> takes the error.\<close>

lemma interval_signals_closed:
  "interval True (ReadyState_value CLOSED) =
     [Error (ErrorMessage ''connection got closed unexpectedly'')]"
  by (simp add: interval_def)

lemma interval_closed_retries:
  "eventSource s \<Longrightarrow>
     step_list url f g p (Interval (ReadyState_value CLOSED)) s = retryWhen s"
  by (simp add: interval_def)

text \<open>
  C1. The adapter should signal a failure to its observer whenever the transport calls the
  error callback. The handler installed by \<open>fromEventSource\<close> makes no observer call: it
  returns a function holding the call to \<open>observer.error\<close>, and nothing calls that function.
  A list watch is in the same state after the callback as before it.
\<close>

theorem onerror_signals_nothing:
  "dispatch (onerror e) = [] \<and>
   snd (onerror e) = ReturnsFunction [Error (ErrorEvent e)] \<and>
   step_list url findItem getItem parse (ErrorCallback e) s = s"
  by (simp add: dispatch_def onerror_def)

section \<open>The single-item watch without subscription\<close>

lemma tidy_initial: "tidy initial_watch"
  by (simp add: tidy_def initial_watch_def)

lemma tidy_notify: "tidy s \<Longrightarrow> eventSource s \<Longrightarrow> tidy (notify_watch p n s)"
  by (cases n) (auto simp: tidy_def retryWhen_def split: sum.splits)

lemma tidy_step: "tidy s \<Longrightarrow> tidy (step_watch url t p e s)"
proof (cases e)
  case (Message d)
  assume "tidy s" then show ?thesis
    by (simp add: Message dispatch_def onmessage_def tidy_notify del: notify_watch.simps)
next
  case (ErrorCallback x)
  assume "tidy s" then show ?thesis
    by (simp add: ErrorCallback dispatch_def onerror_def)
next
  case (Interval r)
  assume "tidy s" then show ?thesis
    by (simp add: Interval interval_def tidy_notify del: notify_watch.simps)
next
  case RetryDelay
  assume "tidy s" then show ?thesis
    by (auto simp: RetryDelay retry_delay_def subscribe_source_def tidy_def)
next
  case BufferTime
  have "eventSource (fold setItem xs r) = eventSource r \<and> retry (fold setItem xs r) = retry r \<and>
        subscription (fold setItem xs r) = subscription r" for xs and r :: "'a watch"
    by (induction xs arbitrary: r) (simp_all add: setItem_def)
  moreover assume "tidy s"
  ultimately show ?thesis
    by (auto simp: BufferTime flush_watch_def tidy_def)
next
  case (VisibilityChange hd)
  assume "tidy s" then show ?thesis
    by (auto simp: VisibilityChange visibilitychange_def start_def ensureUnsubscribed_def
        subscribe_watch_def subscribe_source_def unsubscribe_watch_def unsubscribe_source_def tidy_def)
next
  case Loader
  assume "tidy s" then show ?thesis by (simp add: Loader)
next
  case Timeout
  assume "tidy s" then show ?thesis
    by (auto simp: Timeout teardown_def ensureUnsubscribed_def unsubscribe_watch_def
        unsubscribe_source_def tidy_def)
qed

lemma cleanup_idle:
  "tidy s \<Longrightarrow>
     \<not> listener (cleanup_watch s) \<and> \<not> subscription (cleanup_watch s) \<and>
     \<not> eventSource (cleanup_watch s) \<and> \<not> retry (cleanup_watch s) \<and>
     item (cleanup_watch s) = item s \<and> connections (cleanup_watch s) = connections s"
  by (auto simp: cleanup_watch_def teardown_def ensureUnsubscribed_def unsubscribe_watch_def
      unsubscribe_source_def tidy_def)

lemma tidy_effect: "tidy s \<Longrightarrow> tidy (useWatch url subscribe hidden (cleanup_watch s))"
  using cleanup_idle [of s]
  by (auto simp: useWatch_def handlePageVisibility_def start_def ensureUnsubscribed_def
      subscribe_watch_def subscribe_source_def tidy_def)

lemma tidy_fold:
  "tidy (snd (snd x)) \<Longrightarrow> tidy (snd (snd (fold (act_watch p) acts x)))"
proof (induction acts arbitrary: x)
  case Nil
  then show ?case by simp
next
  case (Cons a acts)
  obtain u t s where x: "x = (u, t, s)" by (cases x)
  with Cons.prems have "tidy (snd (snd (act_watch p a x)))"
    by (cases a) (simp_all add: tidy_effect tidy_step)
  from Cons.IH [OF this] show ?case by simp
qed

lemma tidy_watch_after: "tidy (watch_after p acts)"
  unfolding watch_after_def by (rule tidy_fold) (simp add: tidy_initial)

lemma idle_step:
  "\<not> listener s \<Longrightarrow> \<not> subscription s \<Longrightarrow> \<not> eventSource s \<Longrightarrow> \<not> retry s \<Longrightarrow>
     step_watch url t p e s = s"
  by (cases e) (simp_all add: retry_delay_def)

lemma idle_events:
  "\<not> listener s \<Longrightarrow> \<not> subscription s \<Longrightarrow> \<not> eventSource s \<Longrightarrow> \<not> retry s \<Longrightarrow>
     fold (act_watch p) (map Event evs) (u, t, s) = (u, t, s)"
  by (induction evs) (simp_all add: idle_step)

lemma watch_after_append:
  "watch_after p (acts @ Effect url subscribe t hidden # map Event evs) =
     snd (snd (fold (act_watch p) (map Event evs)
       (url, t, useWatch url subscribe hidden (cleanup_watch (watch_after p acts)))))"
proof -
  obtain u t' s where x: "fold (act_watch p) acts ([], None, initial_watch) = (u, t', s)"
    by (cases "fold (act_watch p) acts ([], None, initial_watch)")
  then show ?thesis by (simp add: watch_after_def)
qed

lemmas hook_defs =
  watch_after_def initial_watch_def useWatch_def cleanup_watch_def teardown_def
  handlePageVisibility_def start_def ensureUnsubscribed_def subscribe_watch_def
  subscribe_source_def unsubscribe_watch_def unsubscribe_source_def flush_watch_def setItem_def
  dispatch_def onmessage_def parse_item_def

lemma subscribed_watch_connects:
  "connections (watch_after parse [Effect url True timeoutAfter False]) = [url]"
  by (simp add: hook_defs)

text \<open>
  C9, as stated, fails. The item is React state and no run of the effect resets it. A hook
  first rendered with \<open>subscribe = true\<close> receives an item; rendered again with
  \<open>subscribe = false\<close>, it makes no connection, and the value it returns is the item received
  before, not the empty record.
\<close>

theorem unsubscribed_after_subscribed_counterexample:
  "item (watch_after parse_item
     [Effect ''u'' True None False, Event (Message ''item 1''), Event BufferTime])
     = Val [''id'' \<mapsto> ''1''] \<and>
   item (watch_after parse_item
     [Effect ''u'' True None False, Event (Message ''item 1''), Event BufferTime,
      Effect ''u'' False None False, Event BufferTime])
     = Val [''id'' \<mapsto> ''1''] \<and>
   item (watch_after parse_item
     [Effect ''u'' True None False, Event (Message ''item 1''), Event BufferTime,
      Effect ''u'' False None False, Event BufferTime])
     \<noteq> Val Map.empty"
  by (simp add: hook_defs)

text \<open>
  C9, amended. A run of the effect with \<open>subscribe = false\<close>, whatever the URL, the timeout,
  the renders and events before it and the events after it: no \<open>EventSource\<close> is constructed
  and none is live or pending, and the item stays what it was when the effect ran. On the
  first render that is the empty record, and no connection has ever been made.
\<close>

theorem unsubscribed_watch_keeps_item:
  "item (watch_after parse (acts @ Effect url False timeoutAfter hidden # map Event evs))
     = item (watch_after parse acts) \<and>
   connections (watch_after parse (acts @ Effect url False timeoutAfter hidden # map Event evs))
     = connections (watch_after parse acts) \<and>
   \<not> eventSource (watch_after parse (acts @ Effect url False timeoutAfter hidden # map Event evs)) \<and>
   \<not> retry (watch_after parse (acts @ Effect url False timeoutAfter hidden # map Event evs)) \<and>
   item (watch_after parse (Effect url False timeoutAfter hidden # map Event evs))
     = Val Map.empty \<and>
   connections (watch_after parse (Effect url False timeoutAfter hidden # map Event evs)) = []"
proof -
  have gen: "watch_after parse (as @ Effect url False timeoutAfter hidden # map Event evs)
      = cleanup_watch (watch_after parse as)" for as
  proof -
    from cleanup_idle [OF tidy_watch_after, of parse as]
    have "fold (act_watch parse) (map Event evs)
        (url, timeoutAfter, cleanup_watch (watch_after parse as))
        = (url, timeoutAfter, cleanup_watch (watch_after parse as))"
      by (simp add: idle_events)
    then show ?thesis by (simp add: watch_after_append useWatch_def)
  qed
  from gen [of acts] cleanup_idle [OF tidy_watch_after, of parse acts]
  have 1: "item (watch_after parse (acts @ Effect url False timeoutAfter hidden # map Event evs))
     = item (watch_after parse acts) \<and>
   connections (watch_after parse (acts @ Effect url False timeoutAfter hidden # map Event evs))
     = connections (watch_after parse acts) \<and>
   \<not> eventSource (watch_after parse (acts @ Effect url False timeoutAfter hidden # map Event evs)) \<and>
   \<not> retry (watch_after parse (acts @ Effect url False timeoutAfter hidden # map Event evs))"
    by simp
  have "watch_after parse [] = (initial_watch :: 'a watch)" by (simp add: watch_after_def)
  with gen [of "[]"] cleanup_idle [OF tidy_watch_after, of parse "[]"]
  have 2: "item (watch_after parse (Effect url False timeoutAfter hidden # map Event evs))
     = Val Map.empty \<and>
   connections (watch_after parse (Effect url False timeoutAfter hidden # map Event evs)) = []"
    by (simp add: initial_watch_def)
  from 1 2 show ?thesis by blast
qed

section \<open>One entry per key\<close>

lemma count_update_same:
  assumes "n < length xs" and "key m = key (xs ! n)"
  shows "map key (xs[n := m]) = map key xs"
proof -
  have "map key (xs[n := m]) = (map key xs)[n := key m]" by (rule map_update)
  also from assms have "\<dots> = (map key xs)[n := map key xs ! n]" by simp
  also have "\<dots> = map key xs" by (rule list_update_id)
  finally show ?thesis .
qed

lemma filter_key: "length (filter (\<lambda>i. key i = k) xs) = length (filter (\<lambda>x. x = k) (map key xs))"
  by (induction xs) simp_all

lemma filter_splice:
  assumes "n < length xs"
  shows "length (filter P (take n xs @ drop (n + 1) xs)) \<le> length (filter P xs)"
proof -
  from assms have "xs = take n xs @ xs ! n # drop (Suc n) xs" by (rule id_take_nth_drop)
  then have "length (filter P xs) = length (filter P (take n xs @ xs ! n # drop (Suc n) xs))"
    by simp
  then show ?thesis by simp
qed

lemma reducer_found:
  "findIndex (\<lambda>i. findItem i c) xs > - 1 \<Longrightarrow>
     reducer findItem getItem xs c =
       (if type c = Some ''Deleted'' then splice xs (findIndex (\<lambda>i. findItem i c) xs)
        else if type c = Some ''Updated''
        then xs[nat (findIndex (\<lambda>i. findItem i c) xs) :=
                  spread (xs ! nat (findIndex (\<lambda>i. findItem i c) xs)) (getItem c)]
        else xs[nat (findIndex (\<lambda>i. findItem i c) xs) := getItem c])"
  by (simp add: reducer_def Let_def)

lemma reducer_absent:
  "findIndex (\<lambda>i. findItem i c) xs = - 1 \<Longrightarrow>
     reducer findItem getItem xs c =
       (if type c = Some ''Deleted'' \<or> type c = Some ''Updated'' then xs else getItem c # xs)"
  by (simp add: reducer_def Let_def)

lemma unique_step:
  assumes f: "\<forall>i c. findItem i c \<longleftrightarrow> key i = ckey c"
    and g: "\<forall>c. key (getItem c) = ckey c"
    and m: "\<forall>i c. key i = ckey c \<longrightarrow> key (spread i (getItem c)) = ckey c"
    and inv: "\<forall>c. length (matching findItem c xs) \<le> 1"
  shows "\<forall>c'. length (matching findItem c' (reducer findItem getItem xs c)) \<le> 1"
proof
  fix c'
  from f have mt: "\<And>ys d. matching findItem d ys = filter (\<lambda>i. key i = ckey d) ys"
    by (simp add: matching_def)
  from inv have invc: "length (filter (\<lambda>i. key i = ckey c') xs) \<le> 1"
    by (simp add: mt)
  show "length (matching findItem c' (reducer findItem getItem xs c)) \<le> 1"
  proof (cases "findIndex (\<lambda>i. findItem i c) xs > - 1")
    case True
    let ?n = "nat (findIndex (\<lambda>i. findItem i c) xs)"
    from findIndex_first [OF True] f have n: "?n < length xs" and k: "key (xs ! ?n) = ckey c"
      by simp_all
    have cong: "length (filter (\<lambda>i. key i = ckey c') ys) = length (filter (\<lambda>i. key i = ckey c') xs)"
      if "map key ys = map key xs" for ys
      using that filter_key [of key "ckey c'" ys] filter_key [of key "ckey c'" xs] by simp
    from n k g have "map key (xs[?n := getItem c]) = map key xs"
      by (simp add: count_update_same)
    from cong [OF this] invc
    have rep: "length (filter (\<lambda>i. key i = ckey c') (xs[?n := getItem c])) \<le> 1" by simp
    from n k m have "map key (xs[?n := spread (xs ! ?n) (getItem c)]) = map key xs"
      by (simp add: count_update_same)
    from cong [OF this] invc
    have upd: "length (filter (\<lambda>i. key i = ckey c') (xs[?n := spread (xs ! ?n) (getItem c)])) \<le> 1"
      by simp
    from n have "length (filter (\<lambda>i. key i = ckey c') (splice xs (findIndex (\<lambda>i. findItem i c) xs)))
        \<le> length (filter (\<lambda>i. key i = ckey c') xs)"
      unfolding splice_def by (rule filter_splice)
    with invc
    have del: "length (filter (\<lambda>i. key i = ckey c') (splice xs (findIndex (\<lambda>i. findItem i c) xs))) \<le> 1"
      by simp
    from True rep upd del show ?thesis
      by (simp add: mt reducer_found [of findItem c xs getItem])
  next
    case False
    with findIndex_ge [of "\<lambda>i. findItem i c" xs]
    have none: "findIndex (\<lambda>i. findItem i c) xs = - 1" by simp
    then have "\<forall>x \<in> set xs. \<not> findItem x c" by (simp add: findIndex_none)
    with f have "filter (\<lambda>i. key i = ckey c) xs = []" by (simp add: filter_empty_conv)
    with none invc g show ?thesis
      by (cases "ckey c' = ckey c") (simp_all add: mt reducer_absent [of findItem c xs getItem])
  qed
qed

text \<open>
  C7, as stated, fails. The reducer itself never compares two entries; whether entries stay
  unique depends on the caller's functions. Here the identity predicate compares the \<open>id\<close> of
  an entry with the key of the change, and the change with key \<open>1\<close> carries an item whose
  \<open>id\<close> is \<open>2\<close>: starting from the empty collection, the same change folded twice leaves two
  entries that the predicate accepts for key \<open>2\<close>.
\<close>

theorem unique_match_counterexample:
  "length (matching same_id (change None ''2'' Map.empty) []) \<le> 1 \<and>
   length (matching same_id (change None ''2'' Map.empty)
     (reduce_all same_id payload
        [change (Some ''Added'') ''1'' [''id'' \<mapsto> ''2''],
         change (Some ''Added'') ''1'' [''id'' \<mapsto> ''2'']] [])) = 2"
  by (simp add: matching_def reduce_all_def reducer_def change_def same_id_def payload_def)

text \<open>
  C7, amended. Let the identity predicate be equality of a key of the entry and a key of the
  change, let the extracted item carry the key of its change, and let the spread of a matching
  entry with the extracted item keep that key. Then, from an initial collection in which at
  most one entry matches any change, after every fold step at most one entry matches any
  change.
\<close>

theorem unique_match_preserved:
  assumes "\<forall>i c. findItem i c \<longleftrightarrow> key i = ckey c"
    and "\<forall>c. key (getItem c) = ckey c"
    and "\<forall>i c. key i = ckey c \<longrightarrow> key (spread i (getItem c)) = ckey c"
    and "\<forall>c. length (matching findItem c init) \<le> 1"
  shows "\<forall>n c. length (matching findItem c (reduce_all findItem getItem (take n cs) init)) \<le> 1"
proof -
  have "\<forall>c. length (matching findItem c (reduce_all findItem getItem ds xs)) \<le> 1"
    if "\<forall>c. length (matching findItem c xs) \<le> 1" for ds xs
    using that
  proof (induction ds arbitrary: xs)
    case Nil
    then show ?case by (simp add: reduce_all_def)
  next
    case (Cons d ds)
    from unique_step [OF assms(1-3) Cons.prems]
    have "\<forall>c'. length (matching findItem c' (reducer findItem getItem xs d)) \<le> 1" .
    from Cons.IH [OF this] show ?case by (simp add: reduce_all_def)
  qed
  with assms(4) show ?thesis by blast
qed

theorem unique_match_preserved_witness:
  "length (matching same_id (change None ''1'' Map.empty) [[''id'' \<mapsto> ''1'']]) \<le> 1 \<and>
   length (matching same_id (change None ''1'' Map.empty)
     (reduce_all same_id stamped
        (take 3 [change (Some ''Added'') ''1'' [''name'' \<mapsto> ''a''],
                 change (Some ''Added'') ''2'' Map.empty,
                 change (Some ''Updated'') ''1'' [''name'' \<mapsto> ''b'']])
        [[''id'' \<mapsto> ''1'']])) = 1"
proof -
  have h1: "\<forall>i c. same_id i c \<longleftrightarrow> (\<lambda>i. i ''id'') i = (\<lambda>c. Some (fst (WatchEvent.more c))) c"
    by (simp add: same_id_def)
  have h2: "\<forall>c. (\<lambda>i. i ''id'') (stamped c) = (\<lambda>c. Some (fst (WatchEvent.more c))) c"
    by (simp add: stamped_def)
  have h3: "\<forall>i c. (\<lambda>i. i ''id'') i = (\<lambda>c. Some (fst (WatchEvent.more c))) c \<longrightarrow>
      (\<lambda>i. i ''id'') (spread i (stamped c)) = (\<lambda>c. Some (fst (WatchEvent.more c))) c"
    by (simp add: stamped_def spread_def)
  have h4: "\<forall>c. length (matching same_id c [[''id'' \<mapsto> ''1'']]) \<le> 1"
    by (simp add: matching_def)
  from unique_match_preserved [OF h1 h2 h3 h4]
  have "length (matching same_id (change None ''1'' Map.empty)
     (reduce_all same_id stamped
        (take 3 [change (Some ''Added'') ''1'' [''name'' \<mapsto> ''a''],
                 change (Some ''Added'') ''2'' Map.empty,
                 change (Some ''Updated'') ''1'' [''name'' \<mapsto> ''b'']])
        [[''id'' \<mapsto> ''1'']])) \<le> 1"
    by blast
  then show ?thesis
    by (simp add: matching_def reduce_all_def reducer_def change_def same_id_def payload_def
        stamped_def spread_def)
qed

section \<open>Restart behind the visibility gate\<close>

lemma wired_run_list: "wired (run_list url f g p h init hidden evs)"
  unfolding run_list_def by (rule wired_run)

text \<open>Hiding and showing the page touch no array: what the fold has written stays.\<close>

lemma visibilitychange_keeps_heap:
  "heap (step_list url f g p (VisibilityChange b) s) = heap s \<and>
   seed (step_list url f g p (VisibilityChange b) s) = seed s"
  by (simp add: visibilitychange_def start_def ensureUnsubscribed_def subscribe_list_def
      subscribe_source_def unsubscribe_list_def unsubscribe_source_def)

lemma restart_starts_at_seed:
  "listener s \<Longrightarrow> \<not> subscription s \<Longrightarrow>
     acc (step_list url f g p (VisibilityChange False) s) = seed s \<and>
     subscription (step_list url f g p (VisibilityChange False) s) \<and>
     connections (step_list url f g p (VisibilityChange False) s) = connections s @ [url]"
  by (simp add: visibilitychange_def start_def ensureUnsubscribed_def subscribe_list_def
      subscribe_source_def)

text \<open>
  C2. After the page was hidden and is visible again, the restarted fold should begin from the
  configured initial value. The list watch is mounted on the caller's empty array (address
  \<open>0\<close>); one item is added; the page is hidden (the gate unsubscribes) and shown again (the
  gate subscribes anew, a second connection is opened). The new \<open>scan\<close> subscriber starts
  from the seed, which is the array the first subscriber has written into: its contents are
  the item added before the page was hidden, not the empty list, and the next change is
  folded on top of it.
\<close>

theorem restart_keeps_accumulated_state:
  "heap (useWatchList ''u'' [[]] (Some 0) False) ! 0 = ([] :: string obj list) \<and>
   subscription (run_list ''u'' same_id payload parse_sample [[]] (Some 0) False
     [Message ''added 1'', BufferTime, VisibilityChange True]) = False \<and>
   subscription (run_list ''u'' same_id payload parse_sample [[]] (Some 0) False
     [Message ''added 1'', BufferTime, VisibilityChange True, VisibilityChange False]) = True \<and>
   connections (run_list ''u'' same_id payload parse_sample [[]] (Some 0) False
     [Message ''added 1'', BufferTime, VisibilityChange True, VisibilityChange False]) = [''u'', ''u''] \<and>
   acc (run_list ''u'' same_id payload parse_sample [[]] (Some 0) False
     [Message ''added 1'', BufferTime, VisibilityChange True, VisibilityChange False]) = 0 \<and>
   heap (run_list ''u'' same_id payload parse_sample [[]] (Some 0) False
     [Message ''added 1'', BufferTime, VisibilityChange True, VisibilityChange False]) ! 0
     = [[''id'' \<mapsto> ''1'']] \<and>
   items (run_list ''u'' same_id payload parse_sample [[]] (Some 0) False
     [Message ''added 1'', BufferTime, VisibilityChange True, VisibilityChange False,
      Message ''added 2'', BufferTime])
     = [[''id'' \<mapsto> ''2''], [''id'' \<mapsto> ''1'']]"
  by (simp add: run_list_def watch_defs)

section \<open>The buffer\<close>

text \<open>
  C3, as stated, fails. Two changes arrive within one buffer window. The first fold step
  produces the snapshot with the first item alone; the buffer holds two references to the one
  array, and at the end of the window both deliveries carry the array as it is then, with
  both items. The snapshot with the first item alone is never delivered, in this window or
  a later one.
\<close>

theorem buffer_counterexample:
  "heap (run_list ''u'' same_id payload parse_sample [] None False [Message ''added 1'']) ! 0
     = [[''id'' \<mapsto> ''1'']] \<and>
   rendered (run_list ''u'' same_id payload parse_sample [] None False
     [Message ''added 1'', Message ''added 2'', BufferTime, BufferTime])
     = [[[''id'' \<mapsto> ''2''], [''id'' \<mapsto> ''1'']], [[''id'' \<mapsto> ''2''], [''id'' \<mapsto> ''1'']]] \<and>
   [[''id'' \<mapsto> ''1'']] \<notin> set (rendered (run_list ''u'' same_id payload parse_sample [] None False
     [Message ''added 1'', Message ''added 2'', BufferTime, BufferTime]))"
  by (simp add: run_list_def watch_defs)

lemma seed_valid:
  assumes "case init of Some a \<Rightarrow> a < length h | None \<Rightarrow> True"
  shows "seed (run_list url f g p h init hidden evs) < length (heap (run_list url f g p h init hidden evs))"
proof -
  from assms have "seed (useWatchList url h init hidden) < length (heap (useWatchList url h init hidden))"
    by (cases init)
       (simp_all add: useWatchList_def handlePageVisibility_def start_def ensureUnsubscribed_def
          subscribe_list_def subscribe_source_def)
  then show ?thesis by (simp add: run_list_def frame_fold)
qed

lemma all_same: "set xs \<subseteq> {a} \<Longrightarrow> xs = replicate (length xs) a"
  by (induction xs) simp_all

lemma message_folds:
  assumes "eventSource s" and "acc s = seed s" and "p d = Inr (Val c)"
  shows "step_list url f g p (Message d) s =
           s\<lparr>heap := (heap s)[seed s := reducer f g (heap s ! seed s) c],
             buffer := buffer s @ [seed s]\<rparr>"
  using assms by (simp add: dispatch_def onmessage_def scan_list_def)

lemma messages_fold:
  assumes "eventSource s" and "acc s = seed s" and "seed s < length (heap s)"
    and "map p ds = map (\<lambda>c. Inr (Val c)) cs"
  shows "fold (step_list url f g p) (map Message ds) s =
           s\<lparr>heap := (heap s)[seed s := reduce_all f g cs (heap s ! seed s)],
             buffer := buffer s @ replicate (length cs) (seed s)\<rparr>"
  using assms
proof (induction ds arbitrary: s cs)
  case Nil
  then show ?case by (simp add: reduce_all_def)
next
  case (Cons d ds)
  from Cons.prems(4) obtain c cs' where cs: "cs = c # cs'" and d: "p d = Inr (Val c)"
    and rest: "map p ds = map (\<lambda>c. Inr (Val c)) cs'"
    by (cases cs) auto
  let ?s = "s\<lparr>heap := (heap s)[seed s := reducer f g (heap s ! seed s) c],
               buffer := buffer s @ [seed s]\<rparr>"
  from Cons.prems(1,2) d have st: "step_list url f g p (Message d) s = ?s"
    by (rule message_folds)
  from Cons.prems(1-3) have pre: "eventSource ?s" "acc ?s = seed ?s" "seed ?s < length (heap ?s)"
    by simp_all
  from Cons.IH [OF pre rest] Cons.prems(3)
  have "fold (step_list url f g p) (map Message ds) ?s =
      s\<lparr>heap := (heap s)[seed s := reduce_all f g cs' (reducer f g (heap s ! seed s) c)],
        buffer := buffer s @ seed s # replicate (length cs') (seed s)\<rparr>"
    by simp
  with st show ?case
    by (simp add: cs reduce_all_def del: step_list.simps)
qed

text \<open>
  C3, amended. In every state a list watch with a live connection reaches, let a run of
  changes arrive within the buffer window. Each fold step appends one reference to the
  fold's array to the buffer; at the end of the window one delivery is made per buffered
  reference, none is dropped and the buffer is empty afterwards; and every one of these
  deliveries is the last folded state of the window, that is the reducer folded over all
  the changes of the run, starting from what the array held before it.
\<close>

theorem buffer_forwards_last_folded_state:
  assumes "case init of Some a \<Rightarrow> a < length h | None \<Rightarrow> True"
    and "s = run_list url findItem getItem parse h init hidden evs"
    and "eventSource s"
    and "map parse ds = map (\<lambda>c. Inr (Val c)) cs"
  shows "heap (fold (step_list url findItem getItem parse) (map Message ds) s) ! seed s
           = reduce_all findItem getItem cs (heap s ! seed s) \<and>
         buffer (fold (step_list url findItem getItem parse) (map Message ds) s)
           = buffer s @ replicate (length cs) (seed s) \<and>
         rendered (step_list url findItem getItem parse BufferTime
                    (fold (step_list url findItem getItem parse) (map Message ds) s))
           = rendered s @ replicate (length (buffer s) + length cs)
                            (reduce_all findItem getItem cs (heap s ! seed s)) \<and>
         buffer (step_list url findItem getItem parse BufferTime
                  (fold (step_list url findItem getItem parse) (map Message ds) s)) = []"
proof -
  let ?m = "fold (step_list url findItem getItem parse) (map Message ds) s"
  let ?last = "reduce_all findItem getItem cs (heap s ! seed s)"
  from assms(2) have w: "wired s" by (simp add: wired_run_list)
  from w have a: "acc s = seed s" and b: "set (buffer s) \<subseteq> {seed s}" by (simp_all add: wired_def)
  from w assms(3) have sub: "subscription s" by (simp add: wired_def)
  from assms(1,2) have v: "seed s < length (heap s)" by (simp add: seed_valid)
  from messages_fold [OF assms(3) a v assms(4)]
  have m: "?m = s\<lparr>heap := (heap s)[seed s := ?last],
                   buffer := buffer s @ replicate (length cs) (seed s)\<rparr>" .
  from v have 1: "heap ?m ! seed s = ?last" by (simp only: m) simp
  have 2: "buffer ?m = buffer s @ replicate (length cs) (seed s)" by (simp only: m) simp
  from b have bs: "buffer s = replicate (length (buffer s)) (seed s)"
    by (rule all_same)
  have "map (\<lambda>l. heap ?m ! l) (buffer ?m) = replicate (length (buffer s) + length cs) ?last"
  proof -
    from bs have "buffer ?m = replicate (length (buffer s) + length cs) (seed s)"
      by (simp only: 2 replicate_add)
    then show ?thesis by (simp add: 1)
  qed
  moreover have subm: "subscription ?m" and "rendered ?m = rendered s"
    using sub by (simp_all only: m) simp_all
  ultimately have 3: "rendered (step_list url findItem getItem parse BufferTime ?m)
      = rendered s @ replicate (length (buffer s) + length cs) ?last"
    by (simp add: flush_list_def fold_setItems)
  from subm have 4: "buffer (step_list url findItem getItem parse BufferTime ?m) = []"
    by (simp add: flush_list_def fold_setItems)
  from 1 2 3 4 show ?thesis by blast
qed

theorem buffer_forwards_last_folded_state_witness:
  "eventSource (run_list ''u'' same_id payload parse_sample [] None False []) \<and>
   map parse_sample [''added 1'', ''added 2'']
     = map (\<lambda>c. Inr (Val c))
         [change (Some ''Added'') ''1'' [''id'' \<mapsto> ''1''],
          change (Some ''Added'') ''2'' [''id'' \<mapsto> ''2'']] \<and>
   rendered (step_list ''u'' same_id payload parse_sample BufferTime
     (fold (step_list ''u'' same_id payload parse_sample)
        (map Message [''added 1'', ''added 2''])
        (run_list ''u'' same_id payload parse_sample [] None False [])))
     = [[[''id'' \<mapsto> ''2''], [''id'' \<mapsto> ''1'']], [[''id'' \<mapsto> ''2''], [''id'' \<mapsto> ''1'']]]"
  using buffer_forwards_last_folded_state
    [where init = None and h = "[]" and url = "''u''" and findItem = same_id
       and getItem = payload and parse = parse_sample and hidden = False and evs = "[]"
       and s = "run_list ''u'' same_id payload parse_sample [] None False []"
       and ds = "[''added 1'', ''added 2'']"
       and cs = "[change (Some ''Added'') ''1'' [''id'' \<mapsto> ''1''],
                  change (Some ''Added'') ''2'' [''id'' \<mapsto> ''2'']]"]
  by (simp add: run_list_def watch_defs reduce_all_def)

section \<open>The caller's array\<close>

text \<open>
  C10, as stated, fails. The fold writes into the caller's array, but the contents need not
  differ from the original ones: on the caller's empty array, an item is added and then
  deleted. The deletion changes the snapshot, and leaves the caller's array with its
  original contents.
\<close>

theorem init_contents_restored_counterexample:
  "(0::nat) < length [[] :: string obj list] \<and>
   eventSource (run_list ''u'' same_id payload parse_sample [[]] (Some 0) False [Message ''added 1'']) \<and>
   parse_sample ''deleted 1'' = Inr (Val (change (Some ''Deleted'') ''1'' Map.empty)) \<and>
   heap (run_list ''u'' same_id payload parse_sample [[]] (Some 0) False [Message ''added 1'']) ! 0
     = [[''id'' \<mapsto> ''1'']] \<and>
   reducer same_id payload
     (heap (run_list ''u'' same_id payload parse_sample [[]] (Some 0) False [Message ''added 1'']) ! 0)
     (change (Some ''Deleted'') ''1'' Map.empty)
     \<noteq> heap (run_list ''u'' same_id payload parse_sample [[]] (Some 0) False [Message ''added 1'']) ! 0 \<and>
   heap (step_list ''u'' same_id payload parse_sample (Message ''deleted 1'')
     (run_list ''u'' same_id payload parse_sample [[]] (Some 0) False [Message ''added 1''])) ! 0
     = [[] :: string obj list] ! 0"
  by (simp add: run_list_def watch_defs)

text \<open>
  C10, amended. A list watch mounted with the caller's array \<open>init\<close> folds into that very
  array: in every state it reaches, the seed and the accumulator are the caller's array, and
  after a change is processed the caller's array holds the new snapshot (the first matching
  entry removed on \<open>Deleted\<close>, replaced by the spread on \<open>Updated\<close>, replaced by the item
  otherwise; without a match the item put in front, or nothing for \<open>Deleted\<close> and
  \<open>Updated\<close>). So whenever the change alters the snapshot, the contents of the caller's
  array are no longer what they were before that change.
\<close>

theorem init_array_written_in_place:
  assumes "a < length h"
    and "s = run_list url findItem getItem parse h (Some a) hidden evs"
    and "eventSource s"
    and "parse d = Inr (Val c)"
    and "xs = heap s ! a"
    and "ys = heap (step_list url findItem getItem parse (Message d) s) ! a"
  shows "seed s = a \<and> acc s = a \<and>
         ((\<forall>i \<in> set xs. \<not> findItem i c) \<longrightarrow>
            ys = (if type c = Some ''Deleted'' \<or> type c = Some ''Updated'' then xs
                  else getItem c # xs)) \<and>
         ((\<exists>i \<in> set xs. findItem i c) \<longrightarrow>
            (\<exists>n < length xs. findItem (xs ! n) c \<and> (\<forall>j < n. \<not> findItem (xs ! j) c) \<and>
               ys = (if type c = Some ''Deleted'' then take n xs @ drop (Suc n) xs
                     else if type c = Some ''Updated'' then xs[n := xs ! n ++ getItem c]
                     else xs[n := getItem c]))) \<and>
         (ys \<noteq> xs \<longrightarrow>
            heap (step_list url findItem getItem parse (Message d) s) ! a \<noteq> heap s ! a)"
proof -
  from assms(2) have w: "wired s" by (simp add: wired_run_list)
  from assms(2) have sd: "seed s = a" and len: "length (heap s) = length h"
    by (simp_all add: run_list_def frame_fold mount_some)
  from w sd have ac: "acc s = a" by (simp add: wired_def)
  from ac sd have "acc s = seed s" by simp
  from message_folds [where s = s and p = parse and d = d and c = c and url = url
      and f = findItem and g = getItem, OF assms(3) this assms(4)] sd
  have "heap (step_list url findItem getItem parse (Message d) s)
          = (heap s)[a := reducer findItem getItem (heap s ! a) c]"
    by simp
  with assms(1,5,6) len have ys: "ys = reducer findItem getItem xs c" by simp
  have absent: "ys = (if type c = Some ''Deleted'' \<or> type c = Some ''Updated'' then xs
                  else getItem c # xs)" if "\<forall>i \<in> set xs. \<not> findItem i c"
  proof -
    from that have "findIndex (\<lambda>i. findItem i c) xs = - 1" by (simp add: findIndex_none)
    then show ?thesis by (simp only: ys reducer_absent)
  qed
  have found: "\<exists>n < length xs. findItem (xs ! n) c \<and> (\<forall>j < n. \<not> findItem (xs ! j) c) \<and>
               ys = (if type c = Some ''Deleted'' then take n xs @ drop (Suc n) xs
                     else if type c = Some ''Updated'' then xs[n := xs ! n ++ getItem c]
                     else xs[n := getItem c])" if "\<exists>i \<in> set xs. findItem i c"
  proof -
    from that have f: "findIndex (\<lambda>i. findItem i c) xs > - 1" by (simp add: findIndex_found)
    let ?n = "nat (findIndex (\<lambda>i. findItem i c) xs)"
    from findIndex_first [OF f]
    have "?n < length xs" and "findItem (xs ! ?n) c" and "\<forall>j < ?n. \<not> findItem (xs ! j) c"
      by simp_all
    moreover from f
    have "ys = (if type c = Some ''Deleted'' then take ?n xs @ drop (Suc ?n) xs
                else if type c = Some ''Updated'' then xs[?n := xs ! ?n ++ getItem c]
                else xs[?n := getItem c])"
      by (simp add: ys reducer_found [of findItem c xs getItem] splice_def spread_def)
    ultimately show ?thesis by blast
  qed
  from assms(5,6) have "ys \<noteq> xs \<longrightarrow>
      heap (step_list url findItem getItem parse (Message d) s) ! a \<noteq> heap s ! a"
    by simp
  with sd ac absent found show ?thesis by blast
qed

theorem init_array_written_in_place_witness:
  "(0::nat) < length [[] :: string obj list] \<and>
   eventSource (run_list ''u'' same_id payload parse_sample [[]] (Some 0) False [Message ''added 1'']) \<and>
   parse_sample ''deleted 1'' = Inr (Val (change (Some ''Deleted'') ''1'' Map.empty)) \<and>
   heap (run_list ''u'' same_id payload parse_sample [[]] (Some 0) False [Message ''added 1'']) ! 0
     = [[''id'' \<mapsto> ''1'']] \<and>
   same_id [''id'' \<mapsto> ''1''] (change (Some ''Deleted'') ''1'' Map.empty) \<and>
   heap (step_list ''u'' same_id payload parse_sample (Message ''deleted 1'')
     (run_list ''u'' same_id payload parse_sample [[]] (Some 0) False [Message ''added 1''])) ! 0
     = []"
proof -
  let ?s = "run_list ''u'' same_id payload parse_sample [[]] (Some 0) False [Message ''added 1'']"
  let ?c = "change (Some ''Deleted'') ''1'' Map.empty"
  let ?ys = "heap (step_list ''u'' same_id payload parse_sample (Message ''deleted 1'') ?s) ! 0"
  have h1: "(0::nat) < length [[] :: string obj list]" by simp
  have h3: "eventSource ?s" by (simp add: run_list_def watch_defs)
  have h4: "parse_sample ''deleted 1'' = Inr (Val ?c)" by (simp add: parse_sample_def)
  have h5: "[[''id'' \<mapsto> ''1'']] = heap ?s ! 0" by (simp add: run_list_def watch_defs)
  have m: "same_id [''id'' \<mapsto> ''1''] ?c" by (simp add: same_id_def change_def)
  have t: "type ?c = Some ''Deleted''" by (simp add: change_def)
  from init_array_written_in_place [OF h1 refl h3 h4 h5 refl]
  have "(\<exists>i \<in> set [[''id'' \<mapsto> ''1'']]. same_id i ?c) \<longrightarrow>
        (\<exists>n < length [[''id'' \<mapsto> ''1'' :: string]]. same_id ([[''id'' \<mapsto> ''1'']] ! n) ?c \<and>
           (\<forall>j < n. \<not> same_id ([[''id'' \<mapsto> ''1'']] ! j) ?c) \<and>
           ?ys = (if type ?c = Some ''Deleted''
                   then take n [[''id'' \<mapsto> ''1'']] @ drop (Suc n) [[''id'' \<mapsto> ''1'']]
                   else if type ?c = Some ''Updated''
                   then [[''id'' \<mapsto> ''1'']][n := [[''id'' \<mapsto> ''1'']] ! n ++ payload ?c]
                   else [[''id'' \<mapsto> ''1'']][n := payload ?c]))"
    by blast
  with m t have "?ys = []" by auto
  with h1 h3 h4 h5 m show ?thesis by simp
qed

section \<open>Failures of decoding and of the reducer\<close>






end
